theory Spec2Isabelle
  imports Main "HOL-Library.Multiset" "HOL-Library.Word"
begin

section \<open>Data model of \<open>IniFile.h\<close>\<close>

text \<open>
  \<open>IniFile::element\<close>: a name with the line it came from. The constructor
  \<open>element(std::string name, size_t lineNum = 0)\<close> is implicit, so a plain string used
  where an element is expected becomes an element with line number 0. Line numbers are
  \<open>size_t\<close> counters of physical lines; they are modelled as \<open>nat\<close>.
\<close>

record element =
  e_name :: string
  e_lineNum :: nat

text \<open>
  Modelled from the spec: the section handle \<open>IniSection\<close> is declared in
  \<open>IniSection.h\<close>, a header this development does not have. The spec describes it as
  a name, a 0-based occurrence index (\<open>getIndex\<close>) and a source line (\<open>getLineNum\<close>).
\<close>

record IniSection =
  s_name :: string
  getIndex :: nat
  getLineNum :: nat

text \<open>
  \<open>element::operator==\<close> and \<open>elementHash\<close> look at the name only. Both hash containers
  are modelled as association lists in iteration order: the inner
  \<open>unordered_map<element, string>\<close> of one section, and the outer
  \<open>unordered_multimap<element, unordered_map<...>>\<close> \<open>_data\<close>. An iterator is a
  position in the list, \<open>end()\<close> is the length of the list.
\<close>

type_synonym keymap = "(element \<times> string) list"
type_synonym store = "(element \<times> keymap) list"

text \<open>
  Where a new node lands in the iteration order of a hash container is decided by the
  library (hash values, bucket layout). It is a parameter of the model: a placement
  function gives the position for the new node. The nodes already present keep their
  order in the model; a library may also reorder them when it rehashes, which changes the
  content of no node, and the code keeps no iterator across an insertion into the same
  container.
\<close>

type_synonym 'v placement = "(element \<times> 'v) list \<Rightarrow> element \<Rightarrow> nat"

definition nl :: char where
  "nl = CHR 0x0A"

section \<open>Container operations\<close>

text \<open>\<open>find(key)\<close>: the position of the first node whose name equals the key, or \<open>end()\<close>.\<close>

definition find_node :: "(element \<times> 'v) list \<Rightarrow> string \<Rightarrow> nat" where
  "find_node m k = length (takeWhile (\<lambda>p. e_name (fst p) \<noteq> k) m)"

text \<open>\<open>equal_range(key)\<close>: the run of equivalent nodes that starts at the first of them.\<close>

definition equal_range :: "(element \<times> 'v) list \<Rightarrow> string \<Rightarrow> nat \<times> nat" where
  "equal_range m k =
     (let first = find_node m k;
          n = length (takeWhile (\<lambda>p. e_name (fst p) = k) (drop first m))
      in (first, first + n))"

text \<open>Linking a new node into the list; the result is the list and the iterator to the node.\<close>

definition insert_node :: "'v placement \<Rightarrow> element \<Rightarrow> 'v \<Rightarrow> (element \<times> 'v) list
    \<Rightarrow> (element \<times> 'v) list \<times> nat" where
  "insert_node pl e v m =
     (let p = min (pl m e) (length m) in (take p m @ (e, v) # drop p m, p))"

text \<open>\<open>unordered_multimap::insert\<close> always adds a node.\<close>

definition mm_insert :: "keymap placement \<Rightarrow> element \<Rightarrow> keymap \<Rightarrow> store \<Rightarrow> store \<times> nat" where
  "mm_insert pl e v d = insert_node pl e v d"

text \<open>\<open>unordered_map::insert\<close> adds a node only when no equivalent key is present.\<close>

definition um_insert :: "string placement \<Rightarrow> element \<Rightarrow> string \<Rightarrow> keymap \<Rightarrow> keymap" where
  "um_insert pl e v m =
     (if find_node m (e_name e) < length m then m else fst (insert_node pl e v m))"

text \<open>
  \<open>unordered_map::operator[](key)\<close>: the node of the key, created with an empty string
  when the key is absent. The key is a \<open>std::string\<close> here, so the new node's element is
  \<open>element(key, 0)\<close>.
\<close>

definition um_subscript :: "string placement \<Rightarrow> keymap \<Rightarrow> string \<Rightarrow> keymap \<times> nat" where
  "um_subscript pl m k =
     (let p = find_node m k
      in if p < length m then (m, p)
         else insert_node pl \<lparr>e_name = k, e_lineNum = 0\<rparr> [] m)"

section \<open>Tokenizer\<close>

text \<open>The two counting loops of \<open>readWord\<close>: spaces are counted until another character breaks the loop.\<close>

fun count_spaces :: "string \<Rightarrow> nat" where
  "count_spaces [] = 0"
| "count_spaces (c # cs) = (if c \<noteq> CHR '' '' then 0 else Suc (count_spaces cs))"

text \<open>\<open>std::string::substr(pos, count)\<close> for \<open>pos \<le> size()\<close>, which holds at every call.\<close>

definition substr :: "string \<Rightarrow> nat \<Rightarrow> nat \<Rightarrow> string" where
  "substr s pos cnt = take cnt (drop pos s)"

definition readWord :: "string \<Rightarrow> string" where
  "readWord line =
     (if line = [] then []
      else let startPos = count_spaces line;
               endPos = length line - count_spaces (rev line)
           in substr line startPos endPos)"

text \<open>\<open>find_first_of\<close> and \<open>find_last_of\<close> for one character; \<open>None\<close> is \<open>npos\<close>.\<close>

definition find_first_of :: "string \<Rightarrow> char \<Rightarrow> nat option" where
  "find_first_of s c =
     (let p = length (takeWhile (\<lambda>x. x \<noteq> c) s) in if p = length s then None else Some p)"

definition find_last_of :: "string \<Rightarrow> char \<Rightarrow> nat option" where
  "find_last_of s c =
     (case find_first_of (rev s) c of None \<Rightarrow> None | Some p \<Rightarrow> Some (length s - 1 - p))"

text \<open>
  The name of a header line: \<open>line.substr(l + 1, r - l - 1)\<close> with \<open>l\<close> the first
  \<open>[\<close> and \<open>r\<close> the last \<open>]\<close>. Positions are \<open>size_t\<close> values (64 bits, \<open>npos\<close> is
  the largest one); the count wraps when the last \<open>]\<close> stands before the first \<open>[\<close>.
\<close>

definition size_t_of :: "nat option \<Rightarrow> 64 word" where
  "size_t_of pos = (case pos of None \<Rightarrow> - 1 | Some p \<Rightarrow> word_of_nat p)"

definition section_name :: "string \<Rightarrow> nat \<Rightarrow> string" where
  "section_name line leftBracketPos =
     substr line (leftBracketPos + 1)
       (unat (size_t_of (find_last_of line CHR '']'') - size_t_of (find_first_of line CHR ''['') - 1))"

section \<open>Loader\<close>

text \<open>
  The three \<open>std::runtime_error\<close>s of \<open>load\<close>, each with the line number it prints:
  "empty key or value in line: n", "key and value without section in line: n",
  "duplicate key in line: n". Opening the file is outside the model: \<open>load\<close> takes the
  store it starts from and the lines that \<open>getline\<close> yields. The loop keeps the line
  counter and the iterator \<open>sectionIt\<close> of the current section, which is \<open>end()\<close> until
  the first header. An exception leaves \<open>_data\<close> as far as it was filled; the model
  returns the error alone.
\<close>

datatype error = EmptyField nat | OrphanKey nat | DuplicateKey nat

fun load_loop :: "keymap placement \<Rightarrow> string placement \<Rightarrow> string list \<Rightarrow> nat \<Rightarrow> nat \<Rightarrow> store
    \<Rightarrow> error + store" where
  "load_loop ps pk [] lineNum sectionIt d = Inr d"
| "load_loop ps pk (line # rest) lineNum sectionIt d =
     (case (find_first_of line CHR ''['', find_first_of line CHR '']'') of
        (Some leftBracketPos, Some rightBracketPos) \<Rightarrow>
          (let section = section_name line leftBracketPos;
               (d', it') = mm_insert ps \<lparr>e_name = section, e_lineNum = lineNum\<rparr> [] d
           in load_loop ps pk rest (lineNum + 1) it' d')
      | _ \<Rightarrow>
          (case find_first_of line CHR ''='' of
             None \<Rightarrow> load_loop ps pk rest (lineNum + 1) sectionIt d
           | Some equalPos \<Rightarrow>
               (let key = readWord (substr line 0 equalPos);
                    val = readWord (drop (equalPos + 1) line)
                in if key = [] \<or> val = [] then Inl (EmptyField lineNum)
                   else if sectionIt = length d then Inl (OrphanKey lineNum)
                   else if find_node (snd (d ! sectionIt)) key \<noteq> length (snd (d ! sectionIt))
                     then Inl (DuplicateKey lineNum)
                   else load_loop ps pk rest (lineNum + 1) sectionIt
                          (d[sectionIt := (fst (d ! sectionIt),
                               um_insert pk \<lparr>e_name = key, e_lineNum = lineNum\<rparr> val
                                 (snd (d ! sectionIt)))]))))"

definition load :: "keymap placement \<Rightarrow> string placement \<Rightarrow> store \<Rightarrow> string list \<Rightarrow> error + store" where
  "load ps pk d lines = load_loop ps pk lines 1 (length d) d"

section \<open>Serializer\<close>

text \<open>
  \<open>save\<close> copies every section with its keys sorted by line number into \<open>arr\<close>, sorts
  \<open>arr\<close> by line number and writes the text. \<open>std::sort\<close> leaves the order of elements
  with equal line numbers open; the model sorts with \<open>sort_key\<close> (insertion sort, which
  keeps elements with equal keys in the order it finds them), so on records with equal
  line numbers the model shows one of the orders the code may produce. Opening the file is
  outside the model: the result is the text written to it.
\<close>

definition key_line :: "element \<times> string \<Rightarrow> string" where
  "key_line kv = e_name (fst kv) @ '' = '' @ snd kv @ [nl]"

definition section_block :: "element \<times> keymap \<Rightarrow> string" where
  "section_block item =
     [CHR ''[''] @ e_name (fst item) @ [CHR '']''] @ [nl] @ concat (map key_line (snd item)) @ [nl]"

definition save_arr :: "store \<Rightarrow> store" where
  "save_arr d =
     sort_key (\<lambda>a. e_lineNum (fst a))
       (map (\<lambda>pair. (fst pair, sort_key (\<lambda>a. e_lineNum (fst a)) (snd pair))) d)"

definition save :: "store \<Rightarrow> string" where
  "save d = concat (map section_block (save_arr d))"

section \<open>Accessors\<close>

definition getIterator :: "store \<Rightarrow> IniSection \<Rightarrow> nat" where
  "getIterator d section =
     (let (first, second) = equal_range d (s_name section)
      in if (first = length d \<and> second = length d) \<or> getIndex section \<ge> (second - first) + 1
         then length d
         else first + getIndex section)"

definition getIteratorIndex :: "store \<Rightarrow> nat \<Rightarrow> nat" where
  "getIteratorIndex d it = it - fst (equal_range d (e_name (fst (d ! it))))"

definition sectionCount :: "store \<Rightarrow> IniSection \<Rightarrow> nat" where
  "sectionCount d section =
     (let (first, second) = equal_range d (s_name section)
      in if first = length d \<and> second = length d then 0 else second - first)"

definition sectionExists :: "store \<Rightarrow> IniSection \<Rightarrow> bool" where
  "sectionExists d section = (if getIterator d section = length d then False else True)"

definition keyExists :: "store \<Rightarrow> IniSection \<Rightarrow> string \<Rightarrow> bool" where
  "keyExists d section key =
     (let it = getIterator d section
      in if it = length d then False
         else if find_node (snd (d ! it)) key = length (snd (d ! it)) then False
         else True)"

text \<open>
  \<open>getKeyLineNum\<close> dereferences the result of \<open>find\<close> without comparing it with
  \<open>end()\<close>. Dereferencing \<open>end()\<close> is undefined behaviour; the model returns it as a fault.
\<close>

datatype fault = DerefEnd

definition getKeyLineNum :: "store \<Rightarrow> IniSection \<Rightarrow> string \<Rightarrow> fault + nat" where
  "getKeyLineNum d section key =
     (let it = getIterator d section
      in if it = length d then Inr 0
         else let p = find_node (snd (d ! it)) key
              in if p = length (snd (d ! it)) then Inl DerefEnd
                 else Inr (e_lineNum (fst (snd (d ! it) ! p))))"

text \<open>
  The three \<open>read\<close>s. They are not \<open>const\<close>: the value is fetched with
  \<open>it->second[key]\<close>, which would create the key if it were absent, so the model returns
  the store next to the result.

  The generic \<open>read<T>\<close> declares \<open>T var;\<close> without initializing it and returns it
  after \<open>stream >> var\<close>. What the variable holds at its declaration is indeterminate
  (whatever the stack frame holds at that moment; nothing keeps it apart from the arguments
  of the call): it is the parameter \<open>var\<close> of the model. The extraction is the parameter
  \<open>extract\<close>: the content of the variable after \<open>stream >> var\<close>, given the text of the
  stream and the content of the variable before.
\<close>

definition read :: "(string \<Rightarrow> 'a \<Rightarrow> 'a) \<Rightarrow> 'a \<Rightarrow> string placement \<Rightarrow> store \<Rightarrow> IniSection
    \<Rightarrow> string \<Rightarrow> 'a \<Rightarrow> 'a \<times> store" where
  "read extract var pk d section key defaultValue =
     (let it = getIterator d section
      in if it = length d \<or> find_node (snd (d ! it)) key = length (snd (d ! it))
         then (defaultValue, d)
         else let (m, p) = um_subscript pk (snd (d ! it)) key
              in (extract (snd (m ! p)) var, d[it := (fst (d ! it), m)]))"

text \<open>
  \<open>operator>>\<close> of a stream for an arithmetic type, as the C++ standard has it: the
  sentry skips the leading whitespace (\<open>std::isspace\<close> in the "C" locale: space, tab,
  newline, vertical tab, form feed, carriage return); when the text ends there the
  extraction fails and the variable is not written; otherwise the number conversion writes
  the variable in every case (the number read, a limit of the type when it is out of
  range, 0 when no number is read). The conversion is a parameter.
\<close>

definition isspace :: "char \<Rightarrow> bool" where
  "isspace c =
     (c = CHR '' '' \<or> c = CHR 0x09 \<or> c = CHR 0x0A \<or> c = CHR 0x0B \<or> c = CHR 0x0C \<or> c = CHR 0x0D)"

definition stream_extract :: "(string \<Rightarrow> 'a) \<Rightarrow> string \<Rightarrow> 'a \<Rightarrow> 'a" where
  "stream_extract conv s var =
     (if dropWhile isspace s = [] then var else conv (dropWhile isspace s))"

text \<open>\<open>std::tolower\<close> on an \<open>unsigned char\<close>, in the "C" locale.\<close>

definition tolower :: "char \<Rightarrow> char" where
  "tolower c =
     (let n = (of_char c :: nat) in if 65 \<le> n \<and> n \<le> 90 then char_of (n + 32) else c)"

definition trueValue :: "string list" where
  "trueValue = [''true'', ''on'', ''yes'', ''1'']"

definition computerTruePrint :: string where
  "computerTruePrint = ''true''"

definition computerFalsePrint :: string where
  "computerFalsePrint = ''false''"

definition read_bool :: "string placement \<Rightarrow> store \<Rightarrow> IniSection \<Rightarrow> string \<Rightarrow> bool
    \<Rightarrow> bool \<times> store" where
  "read_bool pk d section key defaultValue =
     (let it = getIterator d section
      in if it = length d \<or> find_node (snd (d ! it)) key = length (snd (d ! it))
         then (defaultValue, d)
         else let (m, p) = um_subscript pk (snd (d ! it)) key;
                  valueCopy = map tolower (snd (m ! p))
              in (if valueCopy \<in> set trueValue then True else False, d[it := (fst (d ! it), m)]))"

definition read_string :: "string placement \<Rightarrow> store \<Rightarrow> IniSection \<Rightarrow> string \<Rightarrow> string
    \<Rightarrow> string \<times> store" where
  "read_string pk d section key defaultValue =
     (let it = getIterator d section
      in if it = length d \<or> find_node (snd (d ! it)) key = length (snd (d ! it))
         then (defaultValue, d)
         else let (m, p) = um_subscript pk (snd (d ! it)) key
              in (snd (m ! p), d[it := (fst (d ! it), m)]))"

text \<open>
  \<open>writeSection\<close> inserts \<open>{section, {}}\<close>: the string becomes \<open>element(section, 0)\<close>.
  The handle is built from the name and the index of the new node in its equal range.
\<close>

definition writeSection :: "keymap placement \<Rightarrow> store \<Rightarrow> string \<Rightarrow> IniSection \<times> store" where
  "writeSection ps d section =
     (let (d', it) = mm_insert ps \<lparr>e_name = section, e_lineNum = 0\<rparr> [] d
      in (\<lparr>s_name = section, getIndex = getIteratorIndex d' it, getLineNum = 0\<rparr>, d'))"

text \<open>
  The three \<open>writeKeyValue\<close>s have the same body up to the text they store: they return
  at once when \<open>getIterator\<close> gives \<open>end()\<close>, and execute \<open>it->second[key] = text\<close>
  otherwise. This body is \<open>assign_key\<close>. The generic version stores
  \<open>std::to_string(value)\<close> (the rendering is a parameter), the \<open>bool\<close> one stores one of
  the two print constants, the string one stores the value itself.
\<close>

definition assign_key :: "string placement \<Rightarrow> store \<Rightarrow> IniSection \<Rightarrow> string \<Rightarrow> string \<Rightarrow> store" where
  "assign_key pk d section key txt =
     (let it = getIterator d section
      in if it = length d then d
         else let (m, p) = um_subscript pk (snd (d ! it)) key
              in d[it := (fst (d ! it), m[p := (fst (m ! p), txt)])])"


definition writeKeyValue_bool :: "string placement \<Rightarrow> store \<Rightarrow> IniSection \<Rightarrow> string \<Rightarrow> bool \<Rightarrow> store" where
  "writeKeyValue_bool pk d section key v =
     (if v then assign_key pk d section key computerTruePrint
      else assign_key pk d section key computerFalsePrint)"

definition writeKeyValue_string :: "string placement \<Rightarrow> store \<Rightarrow> IniSection \<Rightarrow> string \<Rightarrow> string
    \<Rightarrow> store" where
  "writeKeyValue_string pk d section key v = assign_key pk d section key v"

section \<open>Auxiliary notions for the statements\<close>

text \<open>
  Two placements that keep equivalent nodes adjacent: a new node goes in front of its
  equivalents, or to the front of the list when it has none; or behind its equivalents, or
  to the back of the list when it has none.
\<close>

definition place_front :: "'v placement" where
  "place_front m e =
     (let (first, second) = equal_range m (e_name e) in if first = length m then 0 else first)"

definition place_back :: "'v placement" where
  "place_back m e =
     (let (first, second) = equal_range m (e_name e) in if first = length m then length m else second)"

text \<open>
  A run of the write operations: a section "A" is created and given the key "x", then a
  section "B" is created, then a second section "A", which is given the key "y".
\<close>

definition tie_run :: "keymap placement \<Rightarrow> string placement \<Rightarrow> store" where
  "tie_run ps pk =
     (let (a1, d1) = writeSection ps [] ''A'';
          d2 = writeKeyValue_string pk d1 a1 ''x'' ''1'';
          (b, d3) = writeSection ps d2 ''B'';
          (a2, d4) = writeSection ps d3 ''A''
      in writeKeyValue_string pk d4 a2 ''y'' ''2'')"

text \<open>The value a section holds under a key name: that of the first node with this name.\<close>

definition lookup_key :: "keymap \<Rightarrow> string \<Rightarrow> string option" where
  "lookup_key m k = map_of (map (\<lambda>p. (e_name (fst p), snd p)) m) k"

text \<open>
  Which line makes \<open>load\<close> fail, read off the lines alone: the scan keeps the line
  number, whether a header has been met, and the key names met since the last header.
\<close>

fun first_failure :: "string list \<Rightarrow> nat \<Rightarrow> bool \<Rightarrow> string list \<Rightarrow> error option" where
  "first_failure [] n seen ks = None"
| "first_failure (line # rest) n seen ks =
     (case (find_first_of line CHR ''['', find_first_of line CHR '']'') of
        (Some l, Some r) \<Rightarrow> first_failure rest (n + 1) True []
      | _ \<Rightarrow>
          (case find_first_of line CHR ''='' of
             None \<Rightarrow> first_failure rest (n + 1) seen ks
           | Some eq \<Rightarrow>
               (let key = readWord (substr line 0 eq);
                    val = readWord (drop (eq + 1) line)
                in if key = [] \<or> val = [] then Some (EmptyField n)
                   else if \<not> seen then Some (OrphanKey n)
                   else if key \<in> set ks then Some (DuplicateKey n)
                   else first_failure rest (n + 1) seen (key # ks))))"

text \<open>The line number an error carries.\<close>

fun error_line :: "error \<Rightarrow> nat" where
  "error_line (EmptyField n) = n"
| "error_line (OrphanKey n) = n"
| "error_line (DuplicateKey n) = n"

text \<open>
  The sections of a file in file order, each with its key/value lines in file order and the
  line numbers they stand on, read with the loader's own tokenizer; and the content of a
  store whatever its iteration order.
\<close>

fun file_keys :: "string list \<Rightarrow> nat \<Rightarrow> keymap" where
  "file_keys [] n = []"
| "file_keys (line # rest) n =
     (case (find_first_of line CHR ''['', find_first_of line CHR '']'') of
        (Some l, Some r) \<Rightarrow> []
      | _ \<Rightarrow>
          (case find_first_of line CHR ''='' of
             None \<Rightarrow> file_keys rest (n + 1)
           | Some eq \<Rightarrow>
               (\<lparr>e_name = readWord (substr line 0 eq), e_lineNum = n\<rparr>, readWord (drop (eq + 1) line))
                 # file_keys rest (n + 1)))"

fun file_sections :: "string list \<Rightarrow> nat \<Rightarrow> store" where
  "file_sections [] n = []"
| "file_sections (line # rest) n =
     (case (find_first_of line CHR ''['', find_first_of line CHR '']'') of
        (Some l, Some r) \<Rightarrow>
          (\<lparr>e_name = section_name line l, e_lineNum = n\<rparr>, file_keys rest (n + 1))
            # file_sections rest (n + 1)
      | _ \<Rightarrow> file_sections rest (n + 1))"

definition content_of :: "store \<Rightarrow> (element \<times> (element \<times> string) multiset) multiset" where
  "content_of d = image_mset (\<lambda>s. (fst s, mset (snd s))) (mset d)"

section \<open>Basic facts\<close>

lemmas tok_defs = find_first_of_def find_last_of_def size_t_of_def section_name_def substr_def
  readWord_def

lemmas cont_defs = find_node_def equal_range_def insert_node_def mm_insert_def um_insert_def
  um_subscript_def

lemma find_node_le: "find_node m k \<le> length m"
  by (simp add: find_node_def length_takeWhile_le)

lemma equal_range_le: "snd (equal_range m k) \<le> length m"
proof -
  have "length (takeWhile (\<lambda>p. e_name (fst p) = k) (drop (find_node m k) m))
      \<le> length (drop (find_node m k) m)"
    by (rule length_takeWhile_le)
  with find_node_le[of m k] show ?thesis
    by (simp add: equal_range_def Let_def)
qed

lemma lookup_key_find_node:
  "lookup_key m k = Some v \<Longrightarrow> find_node m k < length m \<and> snd (m ! find_node m k) = v"
  by (induction m) (auto simp: lookup_key_def find_node_def split: if_splits)


lemma um_subscript_found:
  "find_node m k < length m \<Longrightarrow> um_subscript pl m k = (m, find_node m k)"
  by (simp add: um_subscript_def Let_def)

lemma set_insert_node: "set (fst (insert_node pl e v m)) = insert (e, v) (set m)"
proof -
  have "set (take p m) \<union> set (drop p m) = set m" for p
    by (metis append_take_drop_id set_append)
  then show ?thesis by (auto simp: insert_node_def Let_def)
qed


text \<open>A handle whose index is below the number of records of its name is resolved to the
  record at that offset in the equal range.\<close>

lemma getIterator_resolvable:
  assumes "getIndex section < sectionCount d section"
  shows "getIterator d section = fst (equal_range d (s_name section)) + getIndex section"
    and "getIterator d section < length d"
proof -
  obtain f s where fs: "equal_range d (s_name section) = (f, s)"
    by (cases "equal_range d (s_name section)")
  with equal_range_le[of d "s_name section"] have le: "s \<le> length d" by simp
  show "getIterator d section = fst (equal_range d (s_name section)) + getIndex section"
    using assms fs by (auto simp: getIterator_def sectionCount_def split: if_splits)
  show "getIterator d section < length d"
    using assms fs le by (auto simp: getIterator_def sectionCount_def split: if_splits)
qed

lemma getIterator_resolvable_name:
  assumes "getIndex section < sectionCount d section"
  shows "e_name (fst (d ! getIterator d section)) = s_name section"
proof -
  let ?P = "\<lambda>p::element \<times> keymap. e_name (fst p) = s_name section"
  let ?f = "find_node d (s_name section)"
  let ?r = "drop ?f d"
  let ?i = "getIndex section"
  from assms have i: "?i < length (takeWhile ?P ?r)"
    by (auto simp: sectionCount_def equal_range_def Let_def split: if_splits)
  then have g: "getIterator d section = ?f + ?i"
    by (auto simp: getIterator_def equal_range_def Let_def)
  from i have "takeWhile ?P ?r ! ?i \<in> set (takeWhile ?P ?r)" by simp
  then have "?P (takeWhile ?P ?r ! ?i)" by (rule set_takeWhileD[THEN conjunct2])
  moreover have "takeWhile ?P ?r ! ?i = ?r ! ?i" using i by (rule takeWhile_nth)
  moreover have "?i < length ?r" using i length_takeWhile_le[of ?P ?r] by simp
  then have "?r ! ?i = d ! (?f + ?i)" by simp
  ultimately show ?thesis using g by simp
qed

lemma tolower_YES: "map tolower ''YES'' = ''yes''"
  by code_simp

section \<open>The tokenizer and the loader\<close>

text \<open>
  What \<open>readWord\<close> returns for a word \<open>w\<close> (no space at either end) padded by \<open>a\<close> spaces
  in front and \<open>b\<close> behind: the leading spaces are removed, and of the trailing ones as many
  are kept as there were leading ones, at most.
\<close>

lemma count_spaces_replicate:
  "w \<noteq> [] \<Longrightarrow> hd w \<noteq> CHR '' '' \<Longrightarrow> count_spaces (replicate a CHR '' '' @ w) = a"
  by (induction a) (cases w; simp)+

lemma readWord_padded:
  assumes "w \<noteq> []" "hd w \<noteq> CHR '' ''" "last w \<noteq> CHR '' ''"
  shows "readWord (replicate a CHR '' '' @ w @ replicate b CHR '' '')
           = w @ replicate (min a b) CHR '' ''"
proof -
  let ?s = "replicate a CHR '' '' @ w @ replicate b CHR '' ''"
  have lead: "count_spaces ?s = a"
    using count_spaces_replicate[of "w @ replicate b CHR '' ''" a] assms(1,2) by simp
  have "rev ?s = replicate b CHR '' '' @ rev w @ replicate a CHR '' ''" by simp
  moreover have "rev w @ replicate a CHR '' '' \<noteq> []" "hd (rev w @ replicate a CHR '' '') \<noteq> CHR '' ''"
    using assms(1,3) by (simp_all add: hd_rev)
  ultimately have trail: "count_spaces (rev ?s) = b"
    using count_spaces_replicate[of "rev w @ replicate a CHR '' ''" b] by simp
  have "?s \<noteq> []" using assms(1) by simp
  then have "readWord ?s = take (length ?s - b) (drop a ?s)"
    unfolding readWord_def substr_def Let_def lead trail by simp
  also have "\<dots> = w @ replicate (min a b) CHR '' ''"
    by (simp add: min_def)
  finally show ?thesis .
qed

text \<open>\<open>readWord\<close> returns the empty string exactly for a string of spaces, the empty one
  included: the key or the value is empty exactly when its fully trimmed text is.\<close>

lemma count_spaces_takeWhile: "count_spaces s = length (takeWhile (\<lambda>c. c = CHR '' '') s)"
  by (induction s) simp_all

lemma length_takeWhile_lt: "\<not> (\<forall>c \<in> set s. P c) \<Longrightarrow> length (takeWhile P s) < length s"
  by (induction s) auto

lemma readWord_empty_iff: "readWord s = [] \<longleftrightarrow> (\<forall>c \<in> set s. c = CHR '' '')"
proof (cases "\<forall>c \<in> set s. c = CHR '' ''")
  case True
  then have tw: "takeWhile (\<lambda>c. c = CHR '' '') s = s"
    by simp
  have "count_spaces s = length s"
    unfolding count_spaces_takeWhile tw by (rule refl)
  with True show ?thesis by (simp add: readWord_def substr_def Let_def)
next
  case False
  then have ne: "s \<noteq> []" by auto
  from False have "\<not> (\<forall>c \<in> set s. c = CHR '' '')" .
  then have lead: "count_spaces s < length s"
    unfolding count_spaces_takeWhile
    by (rule length_takeWhile_lt)
  from False have "\<not> (\<forall>c \<in> set (rev s). c = CHR '' '')" by simp
  then have trail: "count_spaces (rev s) < length (rev s)"
    unfolding count_spaces_takeWhile
    by (rule length_takeWhile_lt)
  from lead trail have "take (length s - count_spaces (rev s)) (drop (count_spaces s) s) \<noteq> []"
    by simp
  with ne False show ?thesis by (simp add: readWord_def substr_def Let_def)
qed

text \<open>
  C3. The claim: the loader stores key and value with all leading and all trailing spaces
  removed, so a half such as " ab " is stored as "ab". The code: \<open>readWord\<close> counts the
  leading spaces into \<open>startPos\<close> and the end of the text into \<open>endPos\<close>, then calls
  \<open>substr(startPos, endPos)\<close>, whose second argument is a length and not a position. A
  half with a leading space keeps a trailing one: " ab " becomes "ab ", and the line
  " ab = cd " is stored as key "ab " with value "cd ", under every placement.
\<close>

theorem readWord_keeps_trailing_space:
  "readWord '' ab '' = ''ab ''
   \<and> load ps pk [] [''[S]'', '' ab = cd '']
       = Inr [(\<lparr>e_name = ''S'', e_lineNum = 1\<rparr>, [(\<lparr>e_name = ''ab '', e_lineNum = 2\<rparr>, ''cd '')])]"
  by (simp add: load_def tok_defs cont_defs)

text \<open>
  The failures of \<open>load\<close> do not depend on where the containers put their nodes: on an
  empty store \<open>load\<close> fails exactly when the scan of the lines finds a failing line, with
  the same error; the error carries the 1-based number of that line, which is a key/value
  line.
\<close>

lemma load_loop_key_line:
  assumes "find_first_of line CHR ''['' = None \<or> find_first_of line CHR '']'' = None"
  shows "load_loop ps pk (line # rest) n it d =
     (case find_first_of line CHR ''='' of
        None \<Rightarrow> load_loop ps pk rest (n + 1) it d
      | Some eq \<Rightarrow>
          (if readWord (substr line 0 eq) = [] \<or> readWord (drop (eq + 1) line) = []
             then Inl (EmptyField n)
           else if it = length d then Inl (OrphanKey n)
           else if find_node (snd (d ! it)) (readWord (substr line 0 eq)) \<noteq> length (snd (d ! it))
             then Inl (DuplicateKey n)
           else load_loop ps pk rest (n + 1) it
                  (d[it := (fst (d ! it),
                       um_insert pk \<lparr>e_name = readWord (substr line 0 eq), e_lineNum = n\<rparr>
                         (readWord (drop (eq + 1) line)) (snd (d ! it)))])))"
  using assms by (auto simp: Let_def split: option.splits)

lemma first_failure_key_line:
  assumes "find_first_of line CHR ''['' = None \<or> find_first_of line CHR '']'' = None"
  shows "first_failure (line # rest) n seen ks =
     (case find_first_of line CHR ''='' of
        None \<Rightarrow> first_failure rest (n + 1) seen ks
      | Some eq \<Rightarrow>
          (if readWord (substr line 0 eq) = [] \<or> readWord (drop (eq + 1) line) = []
             then Some (EmptyField n)
           else if \<not> seen then Some (OrphanKey n)
           else if readWord (substr line 0 eq) \<in> set ks then Some (DuplicateKey n)
           else first_failure rest (n + 1) seen (readWord (substr line 0 eq) # ks)))"
  using assms by (auto simp: Let_def split: option.splits)

lemma find_node_end_iff: "find_node m k = length m \<longleftrightarrow> k \<notin> e_name ` fst ` set m"
  by (induction m) (auto simp: find_node_def)

lemma names_insert_node:
  "e_name ` fst ` set (fst (insert_node pl e v m)) = insert (e_name e) (e_name ` fst ` set m)"
  by (simp add: set_insert_node)

lemma load_loop_first_failure:
  assumes "seen \<longleftrightarrow> it \<noteq> length d"
      and "seen \<Longrightarrow> it < length d \<and> set ks = e_name ` fst ` set (snd (d ! it))"
  shows "(case load_loop ps pk lines n it d of Inl e \<Rightarrow> Some e | Inr d' \<Rightarrow> None)
           = first_failure lines n seen ks"
  using assms
proof (induction lines arbitrary: n it d seen ks)
  case Nil
  then show ?case by simp
next
  case (Cons line rest)
  show ?case
  proof (cases "\<exists>l r. find_first_of line CHR ''['' = Some l \<and> find_first_of line CHR '']'' = Some r")
    case True
    then obtain l r where lr: "find_first_of line CHR ''['' = Some l" "find_first_of line CHR '']'' = Some r"
      by blast
    let ?e = "\<lparr>e_name = section_name line l, e_lineNum = n\<rparr>"
    let ?p = "min (ps d ?e) (length d)"
    let ?d1 = "take ?p d @ (?e, []) # drop ?p d"
    have ins: "mm_insert ps ?e [] d = (?d1, ?p)"
      by (simp add: mm_insert_def insert_node_def Let_def)
    have a: "True \<longleftrightarrow> ?p \<noteq> length ?d1" by simp
    have b: "?p < length ?d1 \<and> set [] = e_name ` fst ` set (snd (?d1 ! ?p))"
      by (simp add: nth_append)
    from Cons.IH[of True ?p ?d1 "[]" "n + 1", OF a b] lr ins show ?thesis by simp
  next
    case False
    then have nh: "find_first_of line CHR ''['' = None \<or> find_first_of line CHR '']'' = None"
      by auto
    note L = load_loop_key_line[OF nh, of ps pk rest n it d]
    note F = first_failure_key_line[OF nh, of rest n seen ks]
    show ?thesis
    proof (cases "find_first_of line CHR ''=''")
      case None
      with Cons.IH[OF Cons.prems] L F show ?thesis by simp
    next
      case (Some eq)
      let ?key = "readWord (substr line 0 eq)"
      let ?val = "readWord (drop (eq + 1) line)"
      let ?km = "um_insert pk \<lparr>e_name = ?key, e_lineNum = n\<rparr> ?val (snd (d ! it))"
      let ?d1 = "d[it := (fst (d ! it), ?km)]"
      show ?thesis
      proof (cases "?key = [] \<or> ?val = []")
        case True
        with L F Some show ?thesis by simp
      next
        case nonempty: False
        show ?thesis
        proof (cases seen)
          case False
          with Cons.prems(1) have "it = length d" by simp
          with False nonempty L F Some show ?thesis by simp
        next
          case True
          with Cons.prems have it: "it \<noteq> length d" "it < length d"
            and ks: "set ks = e_name ` fst ` set (snd (d ! it))" by simp_all
          show ?thesis
          proof (cases "?key \<in> set ks")
            case dup: True
            then have "find_node (snd (d ! it)) ?key \<noteq> length (snd (d ! it))"
              using ks by (simp add: find_node_end_iff)
            with dup True nonempty L F Some it show ?thesis by simp
          next
            case fresh: False
            then have nf: "find_node (snd (d ! it)) ?key = length (snd (d ! it))"
              using ks by (simp add: find_node_end_iff)
            then have "e_name ` fst ` set ?km = insert ?key (e_name ` fst ` set (snd (d ! it)))"
              by (simp add: um_insert_def names_insert_node)
            with ks it(2) have b: "it < length ?d1 \<and> set (?key # ks) = e_name ` fst ` set (snd (?d1 ! it))"
              by simp
            have a: "seen \<longleftrightarrow> it \<noteq> length ?d1" using True it by simp
            have "load_loop ps pk (line # rest) n it d = load_loop ps pk rest (n + 1) it ?d1"
              using L Some nonempty it nf by simp
            moreover have "first_failure (line # rest) n seen ks = first_failure rest (n + 1) seen (?key # ks)"
              using F Some nonempty True fresh by simp
            ultimately show ?thesis using Cons.IH[of seen it ?d1 "?key # ks" "n + 1", OF a] b by simp
          qed
        qed
      qed
    qed
  qed
qed

lemma load_fails_as_first_failure:
  "(case load ps pk [] lines of Inl e \<Rightarrow> Some e | Inr d \<Rightarrow> None) = first_failure lines 1 False []"
  using load_loop_first_failure[of False 0 "[]" "[]" ps pk lines 1] by (simp add: load_def)

lemma nth_Cons_shift: "n < m \<Longrightarrow> (x # xs) ! (m - n) = xs ! (m - Suc n)"
  by (metis Suc_diff_Suc nth_Cons_Suc)

lemma first_failure_line:
  "first_failure lines n seen ks = Some e \<Longrightarrow>
     n \<le> error_line e \<and> error_line e < n + length lines
     \<and> find_first_of (lines ! (error_line e - n)) CHR ''='' \<noteq> None"
proof (induction lines arbitrary: n seen ks)
  case Nil
  then show ?case by simp
next
  case (Cons line rest)
  show ?case
  proof (cases "\<exists>l r. find_first_of line CHR ''['' = Some l \<and> find_first_of line CHR '']'' = Some r")
    case True
    with Cons.prems have "first_failure rest (n + 1) True [] = Some e" by auto
    from Cons.IH[OF this] show ?thesis by (simp add: nth_Cons_shift)
  next
    case False
    then have nh: "find_first_of line CHR ''['' = None \<or> find_first_of line CHR '']'' = None"
      by auto
    note F = first_failure_key_line[OF nh, of rest n seen ks]
    show ?thesis
    proof (cases "find_first_of line CHR ''=''")
      case None
      with F Cons.prems have "first_failure rest (n + 1) seen ks = Some e" by simp
      from Cons.IH[OF this] show ?thesis by (simp add: nth_Cons_shift)
    next
      case (Some eq)
      show ?thesis
      proof (cases "error_line e = n")
        case True
        with Some show ?thesis by simp
      next
        case False
        with F Some Cons.prems have
          "first_failure rest (n + 1) seen (readWord (substr line 0 eq) # ks) = Some e"
          by (auto split: if_splits)
        from Cons.IH[OF this] show ?thesis by (simp add: nth_Cons_shift)
      qed
    qed
  qed
qed

text \<open>
  C4. The claim: \<open>load\<close> throws whenever a key/value line repeats a key name already
  present in the current section. The code at the lines "[A]", "k=1" and " k =2": the
  third line's key is read as "k " (with the trailing space), which is not found in the
  section, so nothing is thrown and the section ends with the two keys "k" and "k ",
  under every placement.
\<close>

theorem load_accepts_respaced_duplicate:
  "\<exists>m. load ps pk [] [''[A]'', ''k=1'', '' k =2''] = Inr [(\<lparr>e_name = ''A'', e_lineNum = 1\<rparr>, m)]
     \<and> set m = {(\<lparr>e_name = ''k'', e_lineNum = 2\<rparr>, ''1''), (\<lparr>e_name = ''k '', e_lineNum = 3\<rparr>, ''2'')}"
  by (auto simp add: load_def tok_defs find_node_def mm_insert_def um_insert_def set_insert_node
      insert_node_def[where m="[]"])

section \<open>Resolving a handle\<close>

text \<open>
  An index equal to the number of records of the name passes the test of \<open>getIterator\<close>:
  the result is the end of the equal range, which is \<open>end()\<close> or the position of a
  record with another name. Only a larger index gives \<open>end()\<close> for sure.
\<close>

lemma getIterator_past_range:
  assumes "getIndex section = sectionCount d section" "0 < sectionCount d section"
  shows "getIterator d section = snd (equal_range d (s_name section))"
    and "getIterator d section < length d \<Longrightarrow>
           sectionExists d section \<and> e_name (fst (d ! getIterator d section)) \<noteq> s_name section"
proof -
  obtain f s where fs: "equal_range d (s_name section) = (f, s)"
    by (cases "equal_range d (s_name section)")
  from assms fs have k: "getIndex section = s - f" "f < s"
    by (auto simp: sectionCount_def split: if_splits)
  with fs show g: "getIterator d section = snd (equal_range d (s_name section))"
    by (auto simp: getIterator_def)
  assume lt: "getIterator d section < length d"
  let ?P = "\<lambda>p::element \<times> keymap. e_name (fst p) = s_name section"
  let ?r = "drop f d"
  from fs have s: "s = f + length (takeWhile ?P ?r)" and f: "f = find_node d (s_name section)"
    by (auto simp: equal_range_def Let_def)
  from lt g fs s have "length (takeWhile ?P ?r) < length ?r" by simp
  then have "\<not> ?P (?r ! length (takeWhile ?P ?r))" by (rule nth_length_takeWhile)
  moreover have "?r ! length (takeWhile ?P ?r) = d ! s" using s lt g fs by (simp add: add.commute)
  ultimately have "e_name (fst (d ! s)) \<noteq> s_name section" by simp
  with g fs lt show "sectionExists d section \<and> e_name (fst (d ! getIterator d section)) \<noteq> s_name section"
    by (simp add: sectionExists_def)
qed

lemma getIterator_beyond:
  "sectionCount d section < getIndex section \<Longrightarrow> getIterator d section = length d"
  by (auto simp: getIterator_def sectionCount_def split: prod.splits if_splits)


text \<open>
  C2. The claim: with \<open>k\<close> records of a name, the indices below \<open>k\<close> resolve and the
  index \<open>k\<close> does not. The code: \<open>getIterator\<close> gives up when the index is at least
  the size of the equal range plus one, so the index \<open>k\<close> passes the test and the
  iterator is advanced to the end of the range, which is the next record of the container
  when there is one. After loading the lines "[A]" and "[B]" the container holds the two
  records in one order or the other. With "A" first, the handle ("A", 1) resolves to the
  record of "B" and \<open>sectionExists\<close> is true, although \<open>sectionCount\<close> is 1; with "B" first
  the same happens to the handle ("B", 1).
\<close>

theorem index_equal_to_count_resolves:
  "load place_back place_back [] [''[A]'', ''[B]'']
     = Inr [(\<lparr>e_name = ''A'', e_lineNum = 1\<rparr>, []), (\<lparr>e_name = ''B'', e_lineNum = 2\<rparr>, [])]
   \<and> sectionCount [(\<lparr>e_name = ''A'', e_lineNum = 1\<rparr>, []), (\<lparr>e_name = ''B'', e_lineNum = 2\<rparr>, [])]
       \<lparr>s_name = ''A'', getIndex = 1, getLineNum = 0\<rparr> = 1
   \<and> getIterator [(\<lparr>e_name = ''A'', e_lineNum = 1\<rparr>, []), (\<lparr>e_name = ''B'', e_lineNum = 2\<rparr>, [])]
       \<lparr>s_name = ''A'', getIndex = 1, getLineNum = 0\<rparr> = 1
   \<and> sectionExists [(\<lparr>e_name = ''A'', e_lineNum = 1\<rparr>, []), (\<lparr>e_name = ''B'', e_lineNum = 2\<rparr>, [])]
       \<lparr>s_name = ''A'', getIndex = 1, getLineNum = 0\<rparr>
   \<and> load place_front place_front [] [''[A]'', ''[B]'']
     = Inr [(\<lparr>e_name = ''B'', e_lineNum = 2\<rparr>, []), (\<lparr>e_name = ''A'', e_lineNum = 1\<rparr>, [])]
   \<and> sectionExists [(\<lparr>e_name = ''B'', e_lineNum = 2\<rparr>, []), (\<lparr>e_name = ''A'', e_lineNum = 1\<rparr>, [])]
       \<lparr>s_name = ''B'', getIndex = 1, getLineNum = 0\<rparr>"
  by (simp add: load_def tok_defs place_back_def place_front_def sectionCount_def sectionExists_def
      getIterator_def cont_defs)

section \<open>Reading values\<close>

text \<open>
  \<open>read\<close> never changes the store, and gives the default whenever \<open>getIterator\<close>
  returns \<open>end()\<close> or the section it returns has no node for the key.
\<close>

lemma read_default:
  "getIterator d section = length d
     \<or> find_node (snd (d ! getIterator d section)) key = length (snd (d ! getIterator d section))
   \<Longrightarrow> read extract var pk d section key dflt = (dflt, d)"
  by (auto simp: read_def Let_def)

lemma read_store_unchanged: "snd (read extract var pk d section key dflt) = d"
proof (cases "getIterator d section = length d
     \<or> find_node (snd (d ! getIterator d section)) key = length (snd (d ! getIterator d section))")
  case True
  then show ?thesis by (simp add: read_default)
next
  case False
  then have "find_node (snd (d ! getIterator d section)) key < length (snd (d ! getIterator d section))"
    using find_node_le[of "snd (d ! getIterator d section)" key] by simp
  with False show ?thesis by (simp add: read_def Let_def um_subscript_found)
qed

text \<open>
  C7. For every handle that resolves (its index is below the number of records of its
  name) and every key the addressed section holds, \<open>read<bool>\<close> returns true exactly
  when the stored value, lowercased, is one of "true", "on", "yes", "1", and false for
  every other stored text; the default plays no part. The store is returned as it was.
\<close>

theorem read_bool_semantics:
  assumes "getIndex section < sectionCount d section"
      and "it = fst (equal_range d (s_name section)) + getIndex section"
      and "lookup_key (snd (d ! it)) key = Some v"
    shows "read_bool pk d section key dflt
             = (map tolower v \<in> {''true'', ''on'', ''yes'', ''1''}, d)"
proof -
  have it: "getIterator d section = it" "it < length d"
    using getIterator_resolvable[OF assms(1)] assms(2) by simp_all
  have f: "find_node (snd (d ! it)) key < length (snd (d ! it))"
      "snd (snd (d ! it) ! find_node (snd (d ! it)) key) = v"
    using lookup_key_find_node[OF assms(3)] by simp_all
  show ?thesis
    using it f by (simp add: read_bool_def Let_def um_subscript_found trueValue_def)
qed

theorem read_bool_semantics_witness:
  "getIndex \<lparr>s_name = ''A'', getIndex = 0, getLineNum = 0\<rparr>
     < sectionCount [(\<lparr>e_name = ''A'', e_lineNum = 1\<rparr>, [(\<lparr>e_name = ''k'', e_lineNum = 2\<rparr>, ''YES'')])]
         \<lparr>s_name = ''A'', getIndex = 0, getLineNum = 0\<rparr>
   \<and> lookup_key (snd ([(\<lparr>e_name = ''A'', e_lineNum = 1\<rparr>, [(\<lparr>e_name = ''k'', e_lineNum = 2\<rparr>, ''YES'')])] ! 0))
         ''k'' = Some ''YES''
   \<and> read_bool place_back [(\<lparr>e_name = ''A'', e_lineNum = 1\<rparr>, [(\<lparr>e_name = ''k'', e_lineNum = 2\<rparr>, ''YES'')])]
         \<lparr>s_name = ''A'', getIndex = 0, getLineNum = 0\<rparr> ''k'' False
       = (True, [(\<lparr>e_name = ''A'', e_lineNum = 1\<rparr>, [(\<lparr>e_name = ''k'', e_lineNum = 2\<rparr>, ''YES'')])])"
proof -
  let ?d = "[(\<lparr>e_name = ''A'', e_lineNum = 1\<rparr>, [(\<lparr>e_name = ''k'', e_lineNum = 2\<rparr>, ''YES'')])]"
  let ?s = "\<lparr>s_name = ''A'', getIndex = 0, getLineNum = 0\<rparr>"
  have h1: "getIndex ?s < sectionCount ?d ?s"
    by (simp add: sectionCount_def cont_defs)
  have h2: "0 = fst (equal_range ?d (s_name ?s)) + getIndex ?s"
    by (simp add: cont_defs)
  have h3: "lookup_key (snd (?d ! 0)) ''k'' = Some ''YES''"
    by (simp add: lookup_key_def)
  have m: "(map tolower ''YES'' \<in> {''true'', ''on'', ''yes'', ''1''}) = True"
    unfolding tolower_YES by simp
  have c: "read_bool place_back ?d ?s ''k'' False = (True, ?d)"
    using read_bool_semantics[OF h1 h2 h3, of place_back False] unfolding m .
  from h1 h3 c show ?thesis by (intro conjI)
qed

text \<open>
  For a handle that resolves and a key the addressed section holds, the generic
  \<open>read<T>\<close> returns the content of its local variable after the extraction from the
  stored text, and the default is not looked at. When the extraction writes the variable,
  which \<open>operator>>\<close> does for every text with a character that is not whitespace, the
  result is what it writes.
\<close>

lemma read_found:
  assumes "getIndex section < sectionCount d section"
      and "it = fst (equal_range d (s_name section)) + getIndex section"
      and "lookup_key (snd (d ! it)) key = Some v"
    shows "read extract var pk d section key dflt = (extract v var, d)"
proof -
  have it: "getIterator d section = it" "it < length d"
    using getIterator_resolvable[OF assms(1)] assms(2) by simp_all
  have f: "find_node (snd (d ! it)) key < length (snd (d ! it))"
      "snd (snd (d ! it) ! find_node (snd (d ! it)) key) = v"
    using lookup_key_find_node[OF assms(3)] by simp_all
  show ?thesis
    using it f by (simp add: read_def Let_def um_subscript_found)
qed

lemma stream_extract_writes:
  "dropWhile isspace s \<noteq> [] \<Longrightarrow> stream_extract conv s var = conv (dropWhile isspace s)"
  unfolding stream_extract_def by (rule if_not_P)

lemma stream_extract_whitespace:
  "dropWhile isspace s = [] \<Longrightarrow> stream_extract conv s var = var"
  unfolding stream_extract_def by (rule if_P)

text \<open>
  C10. The claim: for a handle that resolves and a key that is present, two calls of the
  generic \<open>read<T>\<close> that differ in the default return the same result, even when the
  stored text does not parse. The code: \<open>T var;\<close> is not initialized, and an extraction
  that fails before it reads a character does not write it. The lines "[A]" and "k="
  followed by one tab are loaded (\<open>readWord\<close> removes spaces only), the value of "k" is
  the tab, and \<open>read\<close> returns what the variable held before the extraction: whatever the
  stack frame of that call holds, which two calls need not share and which may be the
  default itself.
\<close>

theorem read_returns_uninitialized_variable:
  "load ps pk [] [''[A]'', ''k='' @ [CHR 0x09]]
     = Inr [(\<lparr>e_name = ''A'', e_lineNum = 1\<rparr>, [(\<lparr>e_name = ''k'', e_lineNum = 2\<rparr>, [CHR 0x09])])]
   \<and> keyExists [(\<lparr>e_name = ''A'', e_lineNum = 1\<rparr>, [(\<lparr>e_name = ''k'', e_lineNum = 2\<rparr>, [CHR 0x09])])]
         \<lparr>s_name = ''A'', getIndex = 0, getLineNum = 0\<rparr> ''k''
   \<and> read (stream_extract conv) var pl
         [(\<lparr>e_name = ''A'', e_lineNum = 1\<rparr>, [(\<lparr>e_name = ''k'', e_lineNum = 2\<rparr>, [CHR 0x09])])]
         \<lparr>s_name = ''A'', getIndex = 0, getLineNum = 0\<rparr> ''k'' dflt
       = (var, [(\<lparr>e_name = ''A'', e_lineNum = 1\<rparr>, [(\<lparr>e_name = ''k'', e_lineNum = 2\<rparr>, [CHR 0x09])])])"
  by (simp add: load_def tok_defs cont_defs keyExists_def read_def getIterator_def
      stream_extract_def isspace_def)

text \<open>
  C8. The claim: a handle that does not resolve to any section makes \<open>read\<close> return the
  default. The code: after loading "[A]", "x=1", "[B]", "x=2" the store holds one section
  "A" and one section "B", each with a key "x", in one iteration order or the other. With
  "A" first, the handle ("A", 1) names a second "A", which does not exist
  (\<open>sectionCount\<close> is 1), yet \<open>getIterator\<close> hands out the record of "B" and \<open>read\<close>
  returns what is extracted from the "x" of "B", whatever the default; with "B" first the
  handle ("B", 1) reads the "x" of "A".
\<close>

theorem read_past_last_occurrence_reads_next_section:
  "load place_back place_back [] [''[A]'', ''x=1'', ''[B]'', ''x=2'']
     = Inr [(\<lparr>e_name = ''A'', e_lineNum = 1\<rparr>, [(\<lparr>e_name = ''x'', e_lineNum = 2\<rparr>, ''1'')]),
            (\<lparr>e_name = ''B'', e_lineNum = 3\<rparr>, [(\<lparr>e_name = ''x'', e_lineNum = 4\<rparr>, ''2'')])]
   \<and> sectionCount [(\<lparr>e_name = ''A'', e_lineNum = 1\<rparr>, [(\<lparr>e_name = ''x'', e_lineNum = 2\<rparr>, ''1'')]),
                   (\<lparr>e_name = ''B'', e_lineNum = 3\<rparr>, [(\<lparr>e_name = ''x'', e_lineNum = 4\<rparr>, ''2'')])]
       \<lparr>s_name = ''A'', getIndex = 1, getLineNum = 0\<rparr> = 1
   \<and> fst (read extract var pk
            [(\<lparr>e_name = ''A'', e_lineNum = 1\<rparr>, [(\<lparr>e_name = ''x'', e_lineNum = 2\<rparr>, ''1'')]),
             (\<lparr>e_name = ''B'', e_lineNum = 3\<rparr>, [(\<lparr>e_name = ''x'', e_lineNum = 4\<rparr>, ''2'')])]
            \<lparr>s_name = ''A'', getIndex = 1, getLineNum = 0\<rparr> ''x'' dflt) = extract ''2'' var
   \<and> load place_front place_front [] [''[A]'', ''x=1'', ''[B]'', ''x=2'']
     = Inr [(\<lparr>e_name = ''B'', e_lineNum = 3\<rparr>, [(\<lparr>e_name = ''x'', e_lineNum = 4\<rparr>, ''2'')]),
            (\<lparr>e_name = ''A'', e_lineNum = 1\<rparr>, [(\<lparr>e_name = ''x'', e_lineNum = 2\<rparr>, ''1'')])]
   \<and> fst (read extract var pk
            [(\<lparr>e_name = ''B'', e_lineNum = 3\<rparr>, [(\<lparr>e_name = ''x'', e_lineNum = 4\<rparr>, ''2'')]),
             (\<lparr>e_name = ''A'', e_lineNum = 1\<rparr>, [(\<lparr>e_name = ''x'', e_lineNum = 2\<rparr>, ''1'')])]
            \<lparr>s_name = ''B'', getIndex = 1, getLineNum = 0\<rparr> ''x'' dflt) = extract ''1'' var"
  by (simp add: load_def tok_defs place_back_def place_front_def sectionCount_def read_def
      getIterator_def cont_defs Let_def eval_nat_numeral)

text \<open>
  C9. The claim: \<open>getKeyLineNum\<close> on a section that resolves and a key that is absent
  returns a sentinel. The code: \<open>keyExists\<close> and \<open>read\<close> compare the result of
  \<open>find\<close> with \<open>end()\<close>, \<open>getKeyLineNum\<close> does not and dereferences it: with the
  section "A" holding no key, asking for the line of "k" dereferences \<open>end()\<close>.
\<close>

theorem getKeyLineNum_absent_key_derefs_end:
  "keyExists [(\<lparr>e_name = ''A'', e_lineNum = 1\<rparr>, [])]
       \<lparr>s_name = ''A'', getIndex = 0, getLineNum = 0\<rparr> ''k'' = False
   \<and> getKeyLineNum [(\<lparr>e_name = ''A'', e_lineNum = 1\<rparr>, [])]
       \<lparr>s_name = ''A'', getIndex = 0, getLineNum = 0\<rparr> ''k'' = Inl DerefEnd"
  by (simp add: keyExists_def getKeyLineNum_def getIterator_def cont_defs)

section \<open>Sorting facts\<close>






section \<open>Line numbers of loaded keys\<close>



section \<open>Writing a key that the section does not hold\<close>




section \<open>Where a written key is saved\<close>





section \<open>What \<open>save\<close> writes\<close>

text \<open>
  C6. The claim ends with: records with equal line numbers are saved in the order of their
  insertion. The code: \<open>save\<close> walks the hash container and sorts with \<open>std::sort\<close>;
  neither keeps the insertion order. Sections created by \<open>writeSection\<close> all carry the
  line number 0. After "A" (with key "x"), "B" and a second "A" (with key "y") have been
  created in this order, the two "A" are adjacent in the container, so "B" cannot stand
  between them: when new nodes go behind their equivalents the text saved is "A" (x), "A"
  (y), "B"; when they go in front it is "B", "A" (y), "A" (x). With two sections only, "A"
  then "B", the second placement saves "B" before "A".
\<close>

theorem tied_sections_not_in_insertion_order:
  "save (tie_run place_back place_back)
     = ''[A]'' @ [nl] @ ''x = 1'' @ [nl, nl] @ ''[A]'' @ [nl] @ ''y = 2'' @ [nl, nl] @ ''[B]'' @ [nl, nl]
   \<and> save (tie_run place_front place_front)
     = ''[B]'' @ [nl, nl] @ ''[A]'' @ [nl] @ ''y = 2'' @ [nl, nl] @ ''[A]'' @ [nl] @ ''x = 1'' @ [nl, nl]
   \<and> save (snd (writeSection place_front (snd (writeSection place_front [] ''A'')) ''B''))
     = ''[B]'' @ [nl, nl] @ ''[A]'' @ [nl, nl]"
  by (simp add: tie_run_def writeSection_def writeKeyValue_string_def assign_key_def getIterator_def
      getIteratorIndex_def cont_defs place_front_def place_back_def save_def save_arr_def
      section_block_def key_line_def)

text \<open>
  C6, as the code has it. For every store, the text that \<open>save\<close> writes is made of one
  block per section record: the sections are those of the store, each with exactly its
  keys and values; they come by ascending line number, the keys of each by ascending line
  number; a block is the line \<open>[name]\<close>, one line \<open>key = value\<close> per key with one space on
  each side of \<open>=\<close>, and one empty line. Nothing is said about records with equal line
  numbers.
\<close>

theorem save_sorted_and_formatted:
  "\<exists>arr.
      mset (map (\<lambda>item. (fst item, mset (snd item))) arr)
        = mset (map (\<lambda>pair. (fst pair, mset (snd pair))) d)
    \<and> sorted (map (\<lambda>item. e_lineNum (fst item)) arr)
    \<and> (\<forall>item \<in> set arr. sorted (map (\<lambda>kv. e_lineNum (fst kv)) (snd item)))
    \<and> save d = concat (map (\<lambda>item. [CHR ''[''] @ e_name (fst item) @ [CHR '']''] @ [nl]
                     @ concat (map (\<lambda>kv. e_name (fst kv) @ '' = '' @ snd kv @ [nl]) (snd item))
                     @ [nl]) arr)"
proof -
  let ?h = "\<lambda>kv::element \<times> string. e_lineNum (fst kv)"
  let ?f = "\<lambda>item::element \<times> keymap. e_lineNum (fst item)"
  have a: "mset (map (\<lambda>item. (fst item, mset (snd item))) (save_arr d))
        = mset (map (\<lambda>pair. (fst pair, mset (snd pair))) d)"
    by (simp add: save_arr_def multiset.map_comp comp_def)
  have b: "sorted (map ?f (save_arr d))"
    by (simp add: save_arr_def)
  have c: "\<forall>item \<in> set (save_arr d). sorted (map ?h (snd item))"
    by (auto simp: save_arr_def)
  have blk: "section_block = (\<lambda>item. [CHR ''[''] @ e_name (fst item) @ [CHR '']''] @ [nl]
                     @ concat (map (\<lambda>kv. e_name (fst kv) @ '' = '' @ snd kv @ [nl]) (snd item))
                     @ [nl])"
    by (rule ext) (simp add: section_block_def key_line_def[abs_def])
  have e: "save d = concat (map (\<lambda>item. [CHR ''[''] @ e_name (fst item) @ [CHR '']''] @ [nl]
                     @ concat (map (\<lambda>kv. e_name (fst kv) @ '' = '' @ snd kv @ [nl]) (snd item))
                     @ [nl]) (save_arr d))"
    unfolding save_def blk ..
  from a b c e show ?thesis by blast
qed

theorem save_sorted_and_formatted_witness:
  "save [(\<lparr>e_name = ''b'', e_lineNum = 10\<rparr>,
            [(\<lparr>e_name = ''y'', e_lineNum = 12\<rparr>, ''2''), (\<lparr>e_name = ''x'', e_lineNum = 11\<rparr>, ''1'')]),
         (\<lparr>e_name = ''a'', e_lineNum = 3\<rparr>, [])]
     = ''[a]'' @ [nl, nl] @ ''[b]'' @ [nl] @ ''x = 1'' @ [nl] @ ''y = 2'' @ [nl, nl]
   \<and> (\<exists>arr.
      mset (map (\<lambda>item. (fst item, mset (snd item))) arr)
        = mset (map (\<lambda>pair. (fst pair, mset (snd pair)))
            [(\<lparr>e_name = ''b'', e_lineNum = 10\<rparr>,
               [(\<lparr>e_name = ''y'', e_lineNum = 12\<rparr>, ''2''), (\<lparr>e_name = ''x'', e_lineNum = 11\<rparr>, ''1'')]),
             (\<lparr>e_name = ''a'', e_lineNum = 3\<rparr>, [])])
    \<and> sorted (map (\<lambda>item. e_lineNum (fst item)) arr)
    \<and> (\<forall>item \<in> set arr. sorted (map (\<lambda>kv. e_lineNum (fst kv)) (snd item)))
    \<and> ''[a]'' @ [nl, nl] @ ''[b]'' @ [nl] @ ''x = 1'' @ [nl] @ ''y = 2'' @ [nl, nl]
        = concat (map (\<lambda>item. [CHR ''[''] @ e_name (fst item) @ [CHR '']''] @ [nl]
                     @ concat (map (\<lambda>kv. e_name (fst kv) @ '' = '' @ snd kv @ [nl]) (snd item))
                     @ [nl]) arr))"
proof -
  let ?d = "[(\<lparr>e_name = ''b'', e_lineNum = 10\<rparr>,
               [(\<lparr>e_name = ''y'', e_lineNum = 12\<rparr>, ''2''), (\<lparr>e_name = ''x'', e_lineNum = 11\<rparr>, ''1'')]),
             (\<lparr>e_name = ''a'', e_lineNum = 3\<rparr>, [])]"
  have ev: "save ?d = ''[a]'' @ [nl, nl] @ ''[b]'' @ [nl] @ ''x = 1'' @ [nl] @ ''y = 2'' @ [nl, nl]"
    by (simp add: save_def save_arr_def section_block_def key_line_def)
  from save_sorted_and_formatted[of ?d] have "\<exists>arr.
      mset (map (\<lambda>item. (fst item, mset (snd item))) arr)
        = mset (map (\<lambda>pair. (fst pair, mset (snd pair))) ?d)
    \<and> sorted (map (\<lambda>item. e_lineNum (fst item)) arr)
    \<and> (\<forall>item \<in> set arr. sorted (map (\<lambda>kv. e_lineNum (fst kv)) (snd item)))
    \<and> ''[a]'' @ [nl, nl] @ ''[b]'' @ [nl] @ ''x = 1'' @ [nl] @ ''y = 2'' @ [nl, nl]
        = concat (map (\<lambda>item. [CHR ''[''] @ e_name (fst item) @ [CHR '']''] @ [nl]
                     @ concat (map (\<lambda>kv. e_name (fst kv) @ '' = '' @ snd kv @ [nl]) (snd item))
                     @ [nl]) arr)"
    unfolding ev .
  with ev show ?thesis by (intro conjI)
qed

section \<open>Saving a loaded file\<close>

text \<open>
  Whatever the placements, the store that \<open>load\<close> builds holds the sections of the
  file with their keys, and the text saved from it is the sequence of these sections in
  file order, each with its keys in file order. The names, keys and values are the tokens
  the loader read.
\<close>

lemma file_keys_header:
  "find_first_of line CHR ''['' = Some l \<Longrightarrow> find_first_of line CHR '']'' = Some r \<Longrightarrow>
     file_keys (line # rest) n = []"
  by simp

lemma file_keys_key_line:
  "find_first_of line CHR ''['' = None \<or> find_first_of line CHR '']'' = None \<Longrightarrow>
     file_keys (line # rest) n =
       (case find_first_of line CHR ''='' of
          None \<Rightarrow> file_keys rest (n + 1)
        | Some eq \<Rightarrow>
            (\<lparr>e_name = readWord (substr line 0 eq), e_lineNum = n\<rparr>, readWord (drop (eq + 1) line))
              # file_keys rest (n + 1))"
  by (auto split: option.splits)

lemma file_sections_header:
  "find_first_of line CHR ''['' = Some l \<Longrightarrow> find_first_of line CHR '']'' = Some r \<Longrightarrow>
     file_sections (line # rest) n =
       (\<lparr>e_name = section_name line l, e_lineNum = n\<rparr>, file_keys rest (n + 1))
         # file_sections rest (n + 1)"
  by simp

lemma file_sections_key_line:
  "find_first_of line CHR ''['' = None \<or> find_first_of line CHR '']'' = None \<Longrightarrow>
     file_sections (line # rest) n = file_sections rest (n + 1)"
  by (auto split: option.splits)

lemma file_keys_lines:
  "sorted (map (\<lambda>a. e_lineNum (fst a)) (file_keys lines n))
   \<and> distinct (map (\<lambda>a. e_lineNum (fst a)) (file_keys lines n))
   \<and> (\<forall>kv \<in> set (file_keys lines n). n \<le> e_lineNum (fst kv))"
proof (induction lines arbitrary: n)
  case Nil
  then show ?case by simp
next
  case (Cons line rest)
  show ?case
  proof (cases "\<exists>l r. find_first_of line CHR ''['' = Some l \<and> find_first_of line CHR '']'' = Some r")
    case True
    then show ?thesis by auto
  next
    case False
    then have nh: "find_first_of line CHR ''['' = None \<or> find_first_of line CHR '']'' = None"
      by auto
    show ?thesis
      using Cons.IH[of "n + 1"] unfolding file_keys_key_line[OF nh]
      by (cases "find_first_of line CHR ''=''") (fastforce simp: le_Suc_eq)+
  qed
qed

lemma file_sections_lines:
  "sorted (map (\<lambda>a. e_lineNum (fst a)) (file_sections lines n))
   \<and> distinct (map (\<lambda>a. e_lineNum (fst a)) (file_sections lines n))
   \<and> (\<forall>s \<in> set (file_sections lines n). n \<le> e_lineNum (fst s)
        \<and> sorted (map (\<lambda>a. e_lineNum (fst a)) (snd s))
        \<and> distinct (map (\<lambda>a. e_lineNum (fst a)) (snd s)))"
proof (induction lines arbitrary: n)
  case Nil
  then show ?case by simp
next
  case (Cons line rest)
  show ?case
  proof (cases "\<exists>l r. find_first_of line CHR ''['' = Some l \<and> find_first_of line CHR '']'' = Some r")
    case True
    then obtain l r where lr: "find_first_of line CHR ''['' = Some l" "find_first_of line CHR '']'' = Some r"
      by blast
    show ?thesis
      using Cons.IH[of "n + 1"] file_keys_lines[of rest "n + 1"]
      unfolding file_sections_header[OF lr]
      by (fastforce simp: le_Suc_eq)
  next
    case False
    then have nh: "find_first_of line CHR ''['' = None \<or> find_first_of line CHR '']'' = None"
      by auto
    show ?thesis
      using Cons.IH[of "n + 1"] unfolding file_sections_key_line[OF nh]
      by (fastforce simp: le_Suc_eq)
  qed
qed

lemma mset_take_drop_insert: "mset (take p xs @ x # drop p xs) = add_mset x (mset xs)"
proof -
  have "mset (take p xs) + mset (drop p xs) = mset xs"
    by (metis append_take_drop_id mset_append)
  then show ?thesis by (simp add: add.commute)
qed

lemma content_of_insert:
  "content_of (take p d @ x # drop p d) = add_mset (fst x, mset (snd x)) (content_of d)"
  unfolding content_of_def mset_take_drop_insert by simp

lemma content_of_update_cong:
  assumes "it < length d" "fst a = fst b" "mset (snd a) = mset (snd b)"
  shows "content_of (d[it := a]) = content_of (d[it := b])"
  using assms by (simp add: content_of_def mset_update)

lemma mset_um_insert_fresh:
  "find_node m (e_name e) = length m \<Longrightarrow> mset (um_insert pl e v m) = add_mset (e, v) (mset m)"
proof -
  assume "find_node m (e_name e) = length m"
  then have "um_insert pl e v m
      = take (min (pl m e) (length m)) m @ (e, v) # drop (min (pl m e) (length m)) m"
    by (simp add: um_insert_def insert_node_def Let_def)
  then show ?thesis by (simp only: mset_take_drop_insert)
qed

lemma load_loop_content:
  assumes "load_loop ps pk lines n it d = Inr d'" and "it \<le> length d"
  shows "content_of d'
       = content_of (if it < length d then d[it := (fst (d ! it), snd (d ! it) @ file_keys lines n)] else d)
         + content_of (file_sections lines n)"
  using assms
proof (induction lines arbitrary: n it d)
  case Nil
  have "d[it := (fst (d ! it), snd (d ! it))] = d" by simp
  with Nil show ?case by (simp add: content_of_def)
next
  case (Cons line rest)
  show ?case
  proof (cases "\<exists>l r. find_first_of line CHR ''['' = Some l \<and> find_first_of line CHR '']'' = Some r")
    case True
    then obtain l r where lr: "find_first_of line CHR ''['' = Some l" "find_first_of line CHR '']'' = Some r"
      by blast
    let ?e = "\<lparr>e_name = section_name line l, e_lineNum = n\<rparr>"
    let ?p = "min (ps d ?e) (length d)"
    let ?d1 = "take ?p d @ (?e, []) # drop ?p d"
    let ?K = "file_keys rest (n + 1)"
    have ins: "mm_insert ps ?e [] d = (?d1, ?p)"
      by (simp add: mm_insert_def insert_node_def Let_def)
    with Cons.prems(1) lr have run: "load_loop ps pk rest (n + 1) ?p ?d1 = Inr d'" by simp
    have p: "?p \<le> length ?d1" "?p < length ?d1" by simp_all
    have upd: "?d1[?p := (fst (?d1 ! ?p), snd (?d1 ! ?p) @ ?K)] = take ?p d @ (?e, ?K) # drop ?p d"
      by (simp add: list_update_append nth_append)
    from Cons.IH[OF run p(1)] p(2)
    have "content_of d' = content_of (take ?p d @ (?e, ?K) # drop ?p d) + content_of (file_sections rest (n + 1))"
      by (simp only: upd if_True)
    then have 1: "content_of d' = add_mset (?e, mset ?K) (content_of d) + content_of (file_sections rest (n + 1))"
      by (simp add: content_of_insert)
    have same: "d[it := (fst (d ! it), snd (d ! it))] = d" by simp
    have 2: "content_of (if it < length d then d[it := (fst (d ! it), snd (d ! it) @ file_keys (line # rest) n)] else d)
        = content_of d"
      unfolding file_keys_header[OF lr] by (simp add: same)
    have 3: "content_of (file_sections (line # rest) n)
        = add_mset (?e, mset ?K) (content_of (file_sections rest (n + 1)))"
      unfolding file_sections_header[OF lr] by (simp add: content_of_def)
    show ?thesis unfolding 1 2 3 by simp
  next
    case False
    then have nh: "find_first_of line CHR ''['' = None \<or> find_first_of line CHR '']'' = None"
      by auto
    note L = load_loop_key_line[OF nh, of ps pk rest n it d]
    note K = file_keys_key_line[OF nh, of rest n]
    note S = file_sections_key_line[OF nh, of rest n]
    show ?thesis
    proof (cases "find_first_of line CHR ''=''")
      case None
      with L Cons.prems(1) have "load_loop ps pk rest (n + 1) it d = Inr d'" by simp
      from Cons.IH[OF this Cons.prems(2)] show ?thesis unfolding K S None by simp
    next
      case (Some eq)
      let ?key = "readWord (substr line 0 eq)"
      let ?val = "readWord (drop (eq + 1) line)"
      let ?x = "(\<lparr>e_name = ?key, e_lineNum = n\<rparr>, ?val)"
      let ?km = "um_insert pk \<lparr>e_name = ?key, e_lineNum = n\<rparr> ?val (snd (d ! it))"
      let ?d1 = "d[it := (fst (d ! it), ?km)]"
      let ?K = "file_keys rest (n + 1)"
      from L Some Cons.prems have run: "load_loop ps pk rest (n + 1) it ?d1 = Inr d'"
        and it: "it < length d"
        and fresh: "find_node (snd (d ! it)) ?key = length (snd (d ! it))"
        by (auto split: if_splits)
      have len: "it \<le> length ?d1" "it < length ?d1" using it by simp_all
      have upd: "?d1[it := (fst (?d1 ! it), snd (?d1 ! it) @ ?K)] = d[it := (fst (d ! it), ?km @ ?K)]"
        using it by simp
      from Cons.IH[OF run len(1)] len(2)
      have 1: "content_of d' = content_of (d[it := (fst (d ! it), ?km @ ?K)])
          + content_of (file_sections rest (n + 1))"
        by (simp only: upd if_True)
      have "mset ?km = add_mset ?x (mset (snd (d ! it)))"
        using mset_um_insert_fresh[of "snd (d ! it)" "\<lparr>e_name = ?key, e_lineNum = n\<rparr>" pk ?val] fresh
        by simp
      then have "mset (?km @ ?K) = mset (snd (d ! it) @ ?x # ?K)" by simp
      then have 2: "content_of (d[it := (fst (d ! it), ?km @ ?K)])
          = content_of (d[it := (fst (d ! it), snd (d ! it) @ ?x # ?K)])"
        by (intro content_of_update_cong[OF it]) simp_all
      show ?thesis unfolding 1 2 K S Some using it by simp
    qed
  qed
qed

lemma filter_same_key_distinct:
  "distinct (map k xs) \<Longrightarrow> t \<in> set xs \<Longrightarrow> filter (\<lambda>x. k t = k x) xs = [t]"
proof (induction xs)
  case Nil
  then show ?case by simp
next
  case (Cons x xs)
  show ?case
  proof (cases "t = x")
    case True
    from Cons.prems(1) have "\<forall>y \<in> set xs. k x \<noteq> k y" by auto
    then have "filter (\<lambda>y. k x = k y) xs = []" by (simp add: filter_empty_conv)
    with True show ?thesis by simp
  next
    case False
    with Cons.prems have t: "t \<in> set xs" and "distinct (map k xs)" by simp_all
    from Cons.IH[OF this(2) t] have "filter (\<lambda>x. k t = k x) xs = [t]" .
    moreover from Cons.prems(1) t have "k t \<noteq> k x" by (metis distinct.simps(2) image_eqI list.simps(9) set_map)
    ultimately show ?thesis by simp
  qed
qed

lemma sort_key_unique:
  assumes "mset xs = mset ys" "sorted (map k ys)" "distinct (map k ys)"
  shows "sort_key k xs = ys"
proof (rule properties_for_sort_key)
  show "mset ys = mset xs" using assms(1) by simp
  show "sorted (map k ys)" by fact
  fix t assume t: "t \<in> set ys"
  have "mset (map k xs) = mset (map k ys)" using assms(1) by simp
  then have dx: "distinct (map k xs)" using assms(3) by (metis mset_eq_imp_distinct_iff)
  have tx: "t \<in> set xs" using t assms(1) by (metis mset_eq_setD)
  show "filter (\<lambda>x. k t = k x) ys = filter (\<lambda>x. k t = k x) xs"
    using filter_same_key_distinct[OF assms(3) t] filter_same_key_distinct[OF dx tx] by simp
qed

lemma save_arr_unique:
  assumes c: "content_of d = content_of d0"
      and s: "sorted (map (\<lambda>a. e_lineNum (fst a)) d0)" "distinct (map (\<lambda>a. e_lineNum (fst a)) d0)"
      and k: "\<forall>s \<in> set d0. sorted (map (\<lambda>a. e_lineNum (fst a)) (snd s))
                \<and> distinct (map (\<lambda>a. e_lineNum (fst a)) (snd s))"
  shows "save_arr d = d0"
proof -
  let ?h = "\<lambda>a::element \<times> string. e_lineNum (fst a)"
  let ?f = "\<lambda>a::element \<times> keymap. e_lineNum (fst a)"
  let ?g = "\<lambda>pair::element \<times> keymap. (fst pair, sort_key ?h (snd pair))"
  let ?norm = "\<lambda>s::element \<times> keymap. (fst s, mset (snd s))"
  let ?c = "\<lambda>q::element \<times> (element \<times> string) multiset.
              (fst q, sort_key ?h (SOME xs. mset xs = snd q))"
  have canon: "?c (?norm x) = ?g x" if "?norm x = ?norm y" "y \<in> set d0" for x y
  proof -
    from that k have y: "sorted (map ?h (snd y))" "distinct (map ?h (snd y))" by auto
    have "mset (SOME xs. mset xs = mset (snd x)) = mset (snd x)"
      by (rule someI[of "\<lambda>xs. mset xs = mset (snd x)" "snd x"]) simp
    with that(1) have "sort_key ?h (SOME xs. mset xs = mset (snd x)) = snd y"
      by (intro sort_key_unique y) simp
    moreover from that(1) have "sort_key ?h (snd x) = snd y"
      by (intro sort_key_unique y) simp
    ultimately show ?thesis by simp
  qed
  have gd0: "?g y = y" if "y \<in> set d0" for y
  proof -
    from that k have "sorted (map ?h (snd y))" by auto
    then have "sort_key ?h (snd y) = snd y" by (rule sort_key_id_if_sorted)
    then show ?thesis by simp
  qed
  have in_d0: "\<exists>y \<in> set d0. ?norm x = ?norm y" if "x \<in> set d" for x
  proof -
    from that have "?norm x \<in># content_of d" by (simp add: content_of_def)
    with c have "?norm x \<in># content_of d0" by simp
    then show ?thesis by (auto simp: content_of_def)
  qed
  have "image_mset ?g (mset d) = image_mset (\<lambda>x. ?c (?norm x)) (mset d)"
  proof (rule image_mset_cong)
    fix x assume "x \<in># mset d"
    then have "x \<in> set d" by simp
    from in_d0[OF this] obtain y where "y \<in> set d0" "?norm x = ?norm y" by blast
    from canon[OF this(2,1)] show "?g x = ?c (?norm x)" by simp
  qed
  also have "\<dots> = image_mset ?c (content_of d)"
    by (simp add: content_of_def multiset.map_comp comp_def)
  also have "\<dots> = image_mset ?c (content_of d0)" using c by simp
  also have "\<dots> = image_mset (\<lambda>x. ?c (?norm x)) (mset d0)"
    by (simp add: content_of_def multiset.map_comp comp_def)
  also have "\<dots> = image_mset ?g (mset d0)"
  proof (rule image_mset_cong)
    fix y assume "y \<in># mset d0"
    then have "y \<in> set d0" by simp
    from canon[OF refl this] show "?c (?norm y) = ?g y" .
  qed
  also have "\<dots> = image_mset (\<lambda>y. y) (mset d0)"
  proof (rule image_mset_cong)
    fix y assume "y \<in># mset d0"
    then have "y \<in> set d0" by simp
    from gd0[OF this] show "?g y = y" .
  qed
  finally have "mset (map ?g d) = mset d0" by simp
  from sort_key_unique[OF this s] show ?thesis by (simp add: save_arr_def)
qed

lemma save_after_load_in_file_order:
  assumes "load ps pk [] lines = Inr d"
  shows "save d = concat (map section_block (file_sections lines 1))"
proof -
  from assms have "load_loop ps pk lines 1 0 [] = Inr d" by (simp add: load_def)
  from load_loop_content[OF this] have "content_of d = content_of (file_sections lines 1)"
    by (simp add: content_of_def)
  moreover note file_sections_lines[of lines 1]
  ultimately have "save_arr d = file_sections lines 1"
    by (intro save_arr_unique) auto
  then show ?thesis by (simp add: save_def)
qed

text \<open>
  Ties. A store loaded from a file has no two sections and no two keys of a section with
  the same line number, and on a list without equal keys every sorted permutation is the
  one \<open>sort_key\<close> returns: there the text saved does not depend on how the sort treats
  equal elements.
\<close>

lemma loaded_store_tie_free:
  assumes "load ps pk [] lines = Inr d"
  shows "distinct (map (\<lambda>a. e_lineNum (fst a)) d)"
    and "\<forall>s \<in> set d. distinct (map (\<lambda>a. e_lineNum (fst a)) (snd s))"
proof -
  let ?fs = "file_sections lines 1"
  from assms have "load_loop ps pk lines 1 0 [] = Inr d" by (simp add: load_def)
  from load_loop_content[OF this] have c: "content_of d = content_of ?fs"
    by (simp add: content_of_def)
  note fs = file_sections_lines[of lines 1]
  have "image_mset (\<lambda>q. e_lineNum (fst q)) (content_of d)
      = image_mset (\<lambda>q. e_lineNum (fst q)) (content_of ?fs)"
    using c by simp
  then have "mset (map (\<lambda>a. e_lineNum (fst a)) d) = mset (map (\<lambda>a. e_lineNum (fst a)) ?fs)"
    by (simp add: content_of_def multiset.map_comp comp_def)
  with fs show "distinct (map (\<lambda>a. e_lineNum (fst a)) d)"
    by (metis mset_eq_imp_distinct_iff)
  show "\<forall>s \<in> set d. distinct (map (\<lambda>a. e_lineNum (fst a)) (snd s))"
  proof
    fix s assume "s \<in> set d"
    then have "(fst s, mset (snd s)) \<in># content_of d" by (auto simp: content_of_def)
    with c have "(fst s, mset (snd s)) \<in># content_of ?fs" by simp
    then obtain y where y: "y \<in> set ?fs" "mset (snd s) = mset (snd y)"
      by (auto simp: content_of_def)
    from y(2) have "mset (map (\<lambda>a. e_lineNum (fst a)) (snd s)) = mset (map (\<lambda>a. e_lineNum (fst a)) (snd y))"
      by simp
    moreover from fs y(1) have "distinct (map (\<lambda>a. e_lineNum (fst a)) (snd y))" by blast
    ultimately show "distinct (map (\<lambda>a. e_lineNum (fst a)) (snd s))"
      by (metis mset_eq_imp_distinct_iff)
  qed
qed

lemma sorted_permutation_is_sort_key:
  assumes "distinct (map k xs)" "mset ys = mset xs" "sorted (map k ys)"
  shows "ys = sort_key k xs"
proof -
  from assms(2) have "mset (map k ys) = mset (map k xs)" by simp
  with assms(1) have "distinct (map k ys)" by (metis mset_eq_imp_distinct_iff)
  from sort_key_unique[OF assms(2)[symmetric] assms(3) this] show ?thesis by simp
qed

text \<open>
  C1. The claim: \<open>save\<close> after \<open>load\<close> emits the sections, keys and values of the input
  with the spacing renormalized to \<open>key = value\<close>. The code at the lines "[A]" and
  " k = v ": the store holds the key "k " and the value "v " (the trailing spaces that
  \<open>readWord\<close> keeps), \<open>save\<close> writes the line "k  = v ", and loading the written lines
  again gives the key "k": neither the spacing nor the stored key survives the round trip.
\<close>

theorem save_load_spacing_not_normalized:
  "load ps pk [] [''[A]'', '' k = v '']
     = Inr [(\<lparr>e_name = ''A'', e_lineNum = 1\<rparr>, [(\<lparr>e_name = ''k '', e_lineNum = 2\<rparr>, ''v '')])]
   \<and> save [(\<lparr>e_name = ''A'', e_lineNum = 1\<rparr>, [(\<lparr>e_name = ''k '', e_lineNum = 2\<rparr>, ''v '')])]
     = ''[A]'' @ [nl] @ ''k  = v '' @ [nl] @ [nl]
   \<and> load ps pk [] [''[A]'', ''k  = v '', []]
     = Inr [(\<lparr>e_name = ''A'', e_lineNum = 1\<rparr>, [(\<lparr>e_name = ''k'', e_lineNum = 2\<rparr>, ''v '')])]"
  by (simp add: load_def tok_defs cont_defs save_def save_arr_def section_block_def key_line_def)

end
